theory Spec2Isabelle
  imports Main "HOL-Library.Word"
begin

unbundle bit_operations_syntax

section \<open>Data model\<close>

text \<open>
  The append-only file of package \<^verbatim>\<open>aof\<close>, in the later of its two revisions: the one whose
  \<^verbatim>\<open>Lookup\<close> starts again after a chunk it rejects, with \<^verbatim>\<open>chunkMetadataSize\<close> and
  \<^verbatim>\<open>Close\<close>. The file on disk is a list of bytes, which the read handle and the write handle
  both see. Offsets are Go's \<^verbatim>\<open>int64\<close>, modelled as \<open>int\<close>: an offset is only incremented
  after a byte at a larger position has been read, and the returned offset is the end of a
  chunk that was read in full, so every offset computed stays at most the size of the file,
  which an \<^verbatim>\<open>int64\<close> holds.
\<close>

type_synonym byte = "8 word"

datatype error =
    ErrChunkSizeLimitExceeded
  | EOF
  | ErrUnexpectedEOF
  | ErrIO nat

definition magicCookie :: "32 word" where
  "magicCookie = 0x24716296"

definition maxChunkSize :: nat where
  "maxChunkSize = 1024"

definition chunkMetadataSize :: int where
  "chunkMetadataSize = 10"

section \<open>Wire codec\<close>

text \<open>\<^verbatim>\<open>binary.BigEndian.PutUint16\<close> and \<^verbatim>\<open>PutUint32\<close> into a fresh buffer.\<close>

definition encodeU16 :: "16 word \<Rightarrow> byte list" where
  "encodeU16 n = [ucast (drop_bit 8 n), ucast n]"

definition encodeU32 :: "32 word \<Rightarrow> byte list" where
  "encodeU32 n = [ucast (drop_bit 24 n), ucast (drop_bit 16 n), ucast (drop_bit 8 n), ucast n]"

text \<open>\<^verbatim>\<open>binary.BigEndian.Uint16\<close> and \<^verbatim>\<open>Uint32\<close> of a buffer of 2 and of 4 bytes.\<close>

definition decodeU16 :: "byte list \<Rightarrow> 16 word" where
  "decodeU16 buf = ucast (buf ! 1) OR push_bit 8 (ucast (buf ! 0))"

definition decodeU32 :: "byte list \<Rightarrow> 32 word" where
  "decodeU32 buf = ucast (buf ! 3) OR push_bit 8 (ucast (buf ! 2))
     OR push_bit 16 (ucast (buf ! 1)) OR push_bit 24 (ucast (buf ! 0))"

subsection \<open>CRC-32 of the Go library\<close>

text \<open>
  \<^verbatim>\<open>hash/crc32\<close> with the IEEE polynomial, as its portable implementation computes it: the
  table entry of a byte is eight conditional shifts, an update complements the running value,
  folds the bytes in and complements again. A digest starts at 0, \<^verbatim>\<open>Write\<close> updates it and
  \<^verbatim>\<open>Sum32\<close> reads it.
\<close>

definition IEEE :: "32 word" where
  "IEEE = 0xedb88320"

fun crc_shift :: "nat \<Rightarrow> 32 word \<Rightarrow> 32 word" where
  "crc_shift 0 crc = crc"
| "crc_shift (Suc j) crc =
     crc_shift j (if crc AND 1 = 1 then drop_bit 1 crc XOR IEEE else drop_bit 1 crc)"

definition crc_table :: "byte \<Rightarrow> 32 word" where
  "crc_table i = crc_shift 8 (ucast i)"

fun crc_loop :: "32 word \<Rightarrow> byte list \<Rightarrow> 32 word" where
  "crc_loop crc [] = crc"
| "crc_loop crc (v # p) = crc_loop (crc_table (ucast crc XOR v) XOR drop_bit 8 crc) p"

definition crc_update :: "32 word \<Rightarrow> byte list \<Rightarrow> 32 word" where
  "crc_update crc p = NOT (crc_loop (NOT crc) p)"

definition NewIEEE :: "32 word" where
  "NewIEEE = 0"

definition digest_Write :: "32 word \<Rightarrow> byte list \<Rightarrow> 32 word" where
  "digest_Write d p = crc_update d p"

definition Sum32 :: "32 word \<Rightarrow> 32 word" where
  "Sum32 d = d"

section \<open>Append\<close>

text \<open>
  The write handle appends to the file. Its failures are an input of the model: \<open>wfaults\<close>
  lists the outcomes of the coming \<^verbatim>\<open>Write\<close> calls, \<open>None\<close> for a write that succeeds and
  \<open>Some (n, e)\<close> for one that stores only the first \<open>n\<close> bytes and fails with \<open>e\<close>; once the
  list is used up every write succeeds.
\<close>

record disk =
  contents :: "byte list"
  wfaults :: "(nat \<times> error) option list"

definition Write :: "disk \<Rightarrow> byte list \<Rightarrow> error option \<times> disk" where
  "Write d p =
     (case wfaults d of
        [] \<Rightarrow> (None, d\<lparr>contents := contents d @ p\<rparr>)
      | None # fs \<Rightarrow> (None, d\<lparr>contents := contents d @ p, wfaults := fs\<rparr>)
      | Some (n, e) # fs \<Rightarrow> (Some e, d\<lparr>contents := contents d @ take n p, wfaults := fs\<rparr>))"

definition Append :: "disk \<Rightarrow> byte list \<Rightarrow> error option \<times> disk" where
  "Append d b =
     (if length b > maxChunkSize then (Some ErrChunkSizeLimitExceeded, d)
      else
        (let checksum = digest_Write NewIEEE (encodeU32 magicCookie) in
         (case Write d (encodeU32 magicCookie) of
            (Some err, d1) \<Rightarrow> (Some err, d1)
          | (None, d1) \<Rightarrow>
              (let checksum = digest_Write checksum (encodeU16 (word_of_nat (length b))) in
               (case Write d1 (encodeU16 (word_of_nat (length b))) of
                  (Some err, d2) \<Rightarrow> (Some err, d2)
                | (None, d2) \<Rightarrow>
                    (let checksum = digest_Write checksum b in
                     (case Write d2 b of
                        (Some err, d3) \<Rightarrow> (Some err, d3)
                      | (None, d3) \<Rightarrow>
                          (case Write d3 (encodeU32 (Sum32 checksum)) of
                             (Some err, d4) \<Rightarrow> (Some err, d4)
                           | (None, d4) \<Rightarrow> (None, d4)))))))))"

section \<open>Lookup\<close>

text \<open>
  The read handle is a cursor into the bytes of the file. \<^verbatim>\<open>Seek\<close> from the start refuses
  a negative offset and otherwise answers the offset it was given, also past the end.
  \<^verbatim>\<open>io.ReadFull\<close> fills a buffer of \<open>n\<close> bytes: an empty buffer is filled at once, no byte
  left is \<open>EOF\<close>, fewer than \<open>n\<close> bytes left is \<open>ErrUnexpectedEOF\<close>.
\<close>

definition Seek :: "int \<Rightarrow> error + int" where
  "Seek offset = (if offset < 0 then Inl (ErrIO 22) else Inr offset)"

definition ReadFull :: "byte list \<Rightarrow> nat \<Rightarrow> nat \<Rightarrow> (error + byte list) \<times> nat" where
  "ReadFull data pos n =
     (if n = 0 then (Inr [], pos)
      else if length data \<le> pos then (Inl EOF, pos)
      else if length data < pos + n then (Inl ErrUnexpectedEOF, length data)
      else (Inr (take n (drop pos data)), pos + n))"

definition readU8 :: "byte list \<Rightarrow> nat \<Rightarrow> (error + byte) \<times> nat" where
  "readU8 data pos =
     (case ReadFull data pos 1 of
        (Inl err, pos') \<Rightarrow> (if err = ErrUnexpectedEOF then (Inl EOF, pos') else (Inl err, pos'))
      | (Inr buf, pos') \<Rightarrow> (Inr (buf ! 0), pos'))"

definition readU16 :: "byte list \<Rightarrow> nat \<Rightarrow> (error + 16 word) \<times> nat" where
  "readU16 data pos =
     (case ReadFull data pos 2 of
        (Inl err, pos') \<Rightarrow> (if err = ErrUnexpectedEOF then (Inl EOF, pos') else (Inl err, pos'))
      | (Inr buf, pos') \<Rightarrow> (Inr (decodeU16 buf), pos'))"

definition readU32 :: "byte list \<Rightarrow> nat \<Rightarrow> (error + 32 word) \<times> nat" where
  "readU32 data pos =
     (case ReadFull data pos 4 of
        (Inl err, pos') \<Rightarrow> (if err = ErrUnexpectedEOF then (Inl EOF, pos') else (Inl err, pos'))
      | (Inr buf, pos') \<Rightarrow> (Inr (decodeU32 buf), pos'))"

definition isCookie :: "byte list \<Rightarrow> nat \<Rightarrow> bool" where
  "isCookie sync sp \<longleftrightarrow>
     sync ! (sp AND 3) = 0x24 \<and> sync ! ((sp + 1) AND 3) = 0x71 \<and>
     sync ! ((sp + 2) AND 3) = 0x62 \<and> sync ! ((sp + 3) AND 3) = 0x96"

text \<open>
  The inner loop of \<^verbatim>\<open>Lookup\<close>: while the four bytes of \<open>sync\<close>, read in a circle from
  \<open>sp\<close>, are not the cookie, one more byte replaces the oldest one and \<open>offset\<close> moves on.
  It answers the offset at which it stopped and the cursor.
\<close>

function seekCookie :: "byte list \<Rightarrow> byte list \<Rightarrow> nat \<Rightarrow> int \<Rightarrow> nat \<Rightarrow> error + (int \<times> nat)" where
  "seekCookie data sync sp offset pos =
     (if isCookie sync sp then Inr (offset, pos)
      else
        case readU8 data pos of
          (Inl err, pos') \<Rightarrow> Inl err
        | (Inr c, pos') \<Rightarrow> seekCookie data (sync[sp AND 3 := c]) (sp + 1) (offset + 1) pos')"
  by pat_completeness auto
termination
  by (relation "measure (\<lambda>(data, sync, sp, offset, pos). length data - pos)")
     (auto simp: readU8_def ReadFull_def split: if_splits)

text \<open>
  One pass of the outer loop of \<^verbatim>\<open>Lookup\<close> either ends the call (\<open>Return\<close>) or starts
  the loop again with a new offset (\<open>Continue\<close>, the source's \<^verbatim>\<open>offset += 1; continue\<close>).
  \<open>Lookup_chunk\<close> is the part of the pass after the inner loop: \<open>offset\<close> is where the loop
  stopped and \<open>pos\<close> is the cursor, just behind the four bytes of the cookie.
\<close>

datatype pass = Continue int | Return "error + (byte list \<times> int)"

definition Lookup_chunk :: "byte list \<Rightarrow> int \<Rightarrow> nat \<Rightarrow> pass" where
  "Lookup_chunk data offset pos =
     (let checksum = digest_Write NewIEEE (encodeU32 magicCookie) in
      (case readU16 data pos of
         (Inl err, pos) \<Rightarrow> Return (Inl err)
       | (Inr sz, pos) \<Rightarrow>
           (if unat sz > maxChunkSize then Continue (offset + 1)
            else
              (let checksum = digest_Write checksum (encodeU16 sz) in
               (case ReadFull data pos (unat sz) of
                  (Inl err, pos) \<Rightarrow>
                    (if err = ErrUnexpectedEOF then Return (Inl EOF) else Return (Inl err))
                | (Inr b, pos) \<Rightarrow>
                    (let checksum = digest_Write checksum b in
                     (case readU32 data pos of
                        (Inl err, pos) \<Rightarrow> Return (Inl err)
                      | (Inr chunkChecksum, pos) \<Rightarrow>
                          (if Sum32 checksum \<noteq> chunkChecksum then Continue (offset + 1)
                           else Return (Inr (b, offset + chunkMetadataSize + int (length b)))))))))))"

definition Lookup_pass :: "byte list \<Rightarrow> int \<Rightarrow> pass" where
  "Lookup_pass data offset =
     (case Seek offset of
        Inl err \<Rightarrow> Return (Inl err)
      | Inr ret \<Rightarrow>
          (if ret \<noteq> offset then Return (Inl EOF)
           else
             (case ReadFull data (nat ret) 4 of
                (Inl err, pos) \<Rightarrow>
                  (if err = ErrUnexpectedEOF then Return (Inl EOF) else Return (Inl err))
              | (Inr sync, pos) \<Rightarrow>
                  (case seekCookie data sync 0 offset pos of
                     Inl err \<Rightarrow> Return (Inl err)
                   | Inr (offset, pos) \<Rightarrow> Lookup_chunk data offset pos))))"

text \<open>
  The outer loop is \<^verbatim>\<open>for { ... }\<close> with no bound of its own, so \<open>Lookup\<close> is a partial
  function: \<open>None\<close> would be a call that never returns.
\<close>

partial_function (option) Lookup :: "byte list \<Rightarrow> int \<Rightarrow> (error + (byte list \<times> int)) option" where
  "Lookup data offset =
     (case Lookup_pass data offset of
        Return r \<Rightarrow> Some r
      | Continue offset' \<Rightarrow> Lookup data offset')"

section \<open>Close\<close>

text \<open>
  A handle is open or closed, and \<open>close_result\<close> is what its \<^verbatim>\<open>Close\<close> will answer.
\<close>

record handle =
  closed :: bool
  close_result :: "error option"

definition handle_Close :: "handle \<Rightarrow> error option \<times> handle" where
  "handle_Close h = (close_result h, h\<lparr>closed := True\<rparr>)"

record AOF =
  rfile :: handle
  wfile :: handle

definition Close :: "AOF \<Rightarrow> error option \<times> AOF" where
  "Close aof =
     (case handle_Close (rfile aof) of
        (err, r) \<Rightarrow>
          if err \<noteq> None then
            (case handle_Close (wfile aof) of (_, w) \<Rightarrow> (err, aof\<lparr>rfile := r, wfile := w\<rparr>))
          else
            (case handle_Close (wfile aof) of (err', w) \<Rightarrow> (err', aof\<lparr>rfile := r, wfile := w\<rparr>)))"

section \<open>The wire format and the scenarios of the specification\<close>

text \<open>
  The chunk as the specification lays it out: cookie, length, payload, and the CRC-32 of the
  three together, every integer big-endian.
\<close>

definition wire_chunk :: "byte list \<Rightarrow> byte list" where
  "wire_chunk b =
     encodeU32 magicCookie @ encodeU16 (word_of_nat (length b)) @ b @
     encodeU32 (crc_update 0 (encodeU32 magicCookie @ encodeU16 (word_of_nat (length b)) @ b))"

text \<open>The four bytes of the cookie stand in the file at position \<open>p\<close>.\<close>

definition cookie_at :: "byte list \<Rightarrow> nat \<Rightarrow> bool" where
  "cookie_at data p \<longleftrightarrow> take 4 (drop p data) = encodeU32 magicCookie"

text \<open>The first position at or after \<open>p\<close> where the cookie stands, if there is one.\<close>

function next_cookie :: "byte list \<Rightarrow> nat \<Rightarrow> nat option" where
  "next_cookie data p =
     (if length data < p + 4 then None
      else if cookie_at data p then Some p
      else next_cookie data (p + 1))"
  by pat_completeness auto
termination
  by (relation "measure (\<lambda>(data, p). length data - p)") auto

text \<open>
  A pass started at \<open>p\<close> rejects the chunk it finds there: it goes round the loop again from
  \<open>p + 1\<close>.
\<close>

definition rejected :: "byte list \<Rightarrow> nat \<Rightarrow> bool" where
  "rejected data p \<longleftrightarrow> Lookup_pass data (int p) = Continue (int p + 1)"

text \<open>An empty file behind a write handle that never fails.\<close>

definition empty_log :: disk where
  "empty_log = \<lparr>contents = [], wfaults = []\<rparr>"

text \<open>Appending payloads one after the other, stopping at the first error.\<close>

fun append_all :: "disk \<Rightarrow> byte list list \<Rightarrow> error option \<times> disk" where
  "append_all d [] = (None, d)"
| "append_all d (b # bs) =
     (case Append d b of
        (Some err, d') \<Rightarrow> (Some err, d')
      | (None, d') \<Rightarrow> append_all d' bs)"

text \<open>
  A reader that calls \<open>Lookup\<close> \<open>n\<close> times, each time with the offset the call before
  returned, and collects what it is given until a call fails.
\<close>

fun replay :: "byte list \<Rightarrow> int \<Rightarrow> nat \<Rightarrow> (byte list \<times> int) list" where
  "replay data offset 0 = []"
| "replay data offset (Suc n) =
     (case Lookup data offset of
        Some (Inr (b, next)) \<Rightarrow> (b, next) # replay data next n
      | _ \<Rightarrow> [])"

text \<open>
  What such a reader should see of payloads stored back to back from \<open>offset\<close> on: each
  payload with the offset behind its chunk, ten bytes more than the payload is long.
\<close>

fun chained :: "int \<Rightarrow> byte list list \<Rightarrow> (byte list \<times> int) list" where
  "chained offset [] = []"
| "chained offset (b # bs) =
     (b, offset + 10 + int (length b)) # chained (offset + 10 + int (length b)) bs"

text \<open>The four bytes of \<open>sync\<close> in the order of the stream, the oldest at \<open>sp\<close>.\<close>

definition window :: "byte list \<Rightarrow> nat \<Rightarrow> byte list" where
  "window sync sp = [sync ! (sp mod 4), sync ! ((sp + 1) mod 4), sync ! ((sp + 2) mod 4), sync ! ((sp + 3) mod 4)]"

declare seekCookie.simps [simp del] next_cookie.simps [simp del]

section \<open>Facts about the codec\<close>

lemma cookie_bytes: "encodeU32 magicCookie = [0x24, 0x71, 0x62, 0x96]"
  by (simp add: encodeU32_def magicCookie_def)

lemma length_encodeU32 [simp]: "length (encodeU32 n) = 4"
  by (simp add: encodeU32_def)

lemma length_encodeU16 [simp]: "length (encodeU16 n) = 2"
  by (simp add: encodeU16_def)

lemma decode_encodeU16: "decodeU16 (encodeU16 n) = n"
  unfolding decodeU16_def encodeU16_def
proof (rule bit_word_eqI)
  fix k
  assume "k < LENGTH(16)"
  then show "bit (ucast ([ucast (drop_bit 8 n), ucast n :: byte] ! 1) OR
      push_bit 8 (ucast ([ucast (drop_bit 8 n), ucast n :: byte] ! 0)) :: 16 word) k = bit n k"
    by (cases "k < 8") (auto simp add: bit_simps)
qed

lemma decode_encodeU32: "decodeU32 (encodeU32 n) = n"
proof (rule bit_word_eqI)
  fix k
  assume "k < LENGTH(32)"
  then show "bit (decodeU32 (encodeU32 n)) k = bit n k"
    unfolding decodeU32_def encodeU32_def
    by (cases "k < 8"; cases "k < 16"; cases "k < 24") (auto simp add: bit_simps)
qed

lemma encode_decodeU16_pair: "encodeU16 (decodeU16 [a, b]) = [a, b]"
proof -
  have "ucast (drop_bit 8 (ucast b OR push_bit 8 (ucast a) :: 16 word)) = a"
    by (rule bit_word_eqI) (auto simp: bit_simps dest: bit_imp_le_length)
  moreover have "ucast (ucast b OR push_bit 8 (ucast a) :: 16 word) = b"
    by (rule bit_word_eqI) (auto simp: bit_simps dest: bit_imp_le_length)
  ultimately show ?thesis
    by (simp add: decodeU16_def encodeU16_def)
qed

lemma encode_decodeU32_quad: "encodeU32 (decodeU32 [a, b, c, d]) = [a, b, c, d]"
proof -
  let ?w = "ucast d OR push_bit 8 (ucast c) OR push_bit 16 (ucast b) OR push_bit 24 (ucast a) :: 32 word"
  have "ucast (drop_bit 24 ?w) = a"
    by (rule bit_word_eqI) (auto simp: bit_simps dest: bit_imp_le_length)
  moreover have "ucast (drop_bit 16 ?w) = b"
    by (rule bit_word_eqI) (auto simp: bit_simps dest: bit_imp_le_length)
  moreover have "ucast (drop_bit 8 ?w) = c"
    by (rule bit_word_eqI) (auto simp: bit_simps dest: bit_imp_le_length)
  moreover have "ucast ?w = d"
    by (rule bit_word_eqI) (auto simp: bit_simps dest: bit_imp_le_length)
  ultimately show ?thesis
    by (simp add: decodeU32_def encodeU32_def)
qed

lemma crc_loop_append: "crc_loop c (a @ b) = crc_loop (crc_loop c a) b"
  by (induction a arbitrary: c) simp_all

lemma crc_update_append: "crc_update (crc_update c a) b = crc_update c (a @ b)"
  by (simp add: crc_update_def crc_loop_append)

lemma unat_length16: "n \<le> 1024 \<Longrightarrow> unat (word_of_nat n :: 16 word) = n"
  by (simp add: unat_of_nat)

lemma encodeU16_length:
  "encodeU16 (word_of_nat n) = [word_of_nat (n div 256), word_of_nat (n mod 256)]"
proof -
  have hi: "n div 256 = drop_bit 8 n" and lo: "n mod 256 = take_bit 8 n"
    by (simp_all add: drop_bit_eq_div take_bit_eq_mod)
  have "ucast (drop_bit 8 (word_of_nat n :: 16 word)) = (word_of_nat (n div 256) :: byte)"
    unfolding hi by (rule bit_word_eqI) (auto simp: bit_simps)
  moreover have "ucast (word_of_nat n :: 16 word) = (word_of_nat (n mod 256) :: byte)"
    unfolding lo by (rule bit_word_eqI) (auto simp: bit_simps)
  ultimately show ?thesis
    by (simp add: encodeU16_def)
qed

text \<open>
  Evaluating the checksum on bytes that are given: the eight shifts of a table entry are
  written out, and the complement is an exclusive or, which keeps the numerals positive.
\<close>

lemma crc_step8:
  "crc_shift 8 c =
     crc_shift 1 (crc_shift 1 (crc_shift 1 (crc_shift 1
       (crc_shift 1 (crc_shift 1 (crc_shift 1 (crc_shift 1 c)))))))"
  by (simp add: eval_nat_numeral)

lemma not32: "NOT (x :: 32 word) = x XOR 0xFFFFFFFF"
proof -
  have "(0xFFFFFFFF :: 32 word) = - 1"
    by simp
  then show ?thesis
    by (simp only: bit.xor_one_right)
qed

lemmas crc_eval = crc_update_def not32 crc_table_def crc_step8 crc_shift.simps(1) One_nat_def
  crc_shift.simps(2) IEEE_def

lemma crc32_check_value: "crc_update 0 [49, 50, 51, 52, 53, 54, 55, 56, 57] = 0xCBF43926"
  by (simp add: crc_eval)

section \<open>What Append writes\<close>

lemma Write_ok:
  assumes "set (take (Suc n) (wfaults d)) \<subseteq> {None}"
  shows "Write d p = (None, d\<lparr>contents := contents d @ p, wfaults := tl (wfaults d)\<rparr>)"
    and "set (take n (tl (wfaults d))) \<subseteq> {None}"
proof -
  show "Write d p = (None, d\<lparr>contents := contents d @ p, wfaults := tl (wfaults d)\<rparr>)"
  proof (cases "wfaults d")
    case Nil
    then show ?thesis
      by (cases d) (simp add: Write_def)
  next
    case (Cons x fs)
    with assms show ?thesis
      by (simp add: Write_def)
  qed
  show "set (take n (tl (wfaults d))) \<subseteq> {None}"
    using assms by (cases "wfaults d") simp_all
qed

lemma Append_ok:
  assumes len: "length b \<le> 1024" and ok: "set (take 4 (wfaults d)) \<subseteq> {None}"
  shows "Append d b =
    (None, d\<lparr>contents := contents d @ wire_chunk b, wfaults := drop 4 (wfaults d)\<rparr>)"
proof -
  define ck where "ck = encodeU32 magicCookie"
  define ln where "ln = encodeU16 (word_of_nat (length b))"
  define sm where "sm = encodeU32 (crc_update 0 (ck @ ln @ b))"
  define d1 where "d1 = d\<lparr>contents := contents d @ ck, wfaults := tl (wfaults d)\<rparr>"
  define d2 where "d2 = d1\<lparr>contents := contents d1 @ ln, wfaults := tl (wfaults d1)\<rparr>"
  define d3 where "d3 = d2\<lparr>contents := contents d2 @ b, wfaults := tl (wfaults d2)\<rparr>"
  define d4 where "d4 = d3\<lparr>contents := contents d3 @ sm, wfaults := tl (wfaults d3)\<rparr>"
  have ok0: "set (take (Suc 3) (wfaults d)) \<subseteq> {None}"
    using ok by (simp add: numeral_eq_Suc)
  have w1: "Write d ck = (None, d1)" and ok1: "set (take (Suc 2) (wfaults d1)) \<subseteq> {None}"
    using Write_ok [OF ok0] by (simp_all add: d1_def numeral_eq_Suc)
  have w2: "Write d1 ln = (None, d2)" and ok2: "set (take (Suc 1) (wfaults d2)) \<subseteq> {None}"
    using Write_ok [OF ok1] by (simp_all add: d2_def numeral_eq_Suc)
  have w3: "Write d2 b = (None, d3)" and ok3: "set (take (Suc 0) (wfaults d3)) \<subseteq> {None}"
    using Write_ok [OF ok2] by (simp_all add: d3_def)
  have w4: "Write d3 sm = (None, d4)"
    using Write_ok(1) [OF ok3] by (simp add: d4_def)
  have "Append d b = (None, d4)"
    using len w1 w2 w3 w4
    by (simp add: Append_def maxChunkSize_def digest_Write_def NewIEEE_def Sum32_def
        crc_update_append ck_def ln_def sm_def)
  moreover have "d4 = d\<lparr>contents := contents d @ wire_chunk b, wfaults := drop 4 (wfaults d)\<rparr>"
    by (simp add: d4_def d3_def d2_def d1_def wire_chunk_def ck_def ln_def sm_def
        numeral_eq_Suc drop_Suc tl_drop)
  ultimately show ?thesis
    by simp
qed

text \<open>
  Claim C4. For a payload of at most 1024 bytes, on a write handle that accepts the four
  writes, \<open>Append\<close> succeeds and adds to the end of the file exactly the cookie
  \<open>24 71 62 96\<close>, the length of the payload as two bytes with the high byte first, the
  payload, and the four big-endian bytes of the CRC-32 of the three together: \<open>10 + length b\<close>
  bytes in all.
\<close>

theorem Append_writes_chunk:
  "length b \<le> 1024 \<Longrightarrow> set (take 4 (wfaults d)) \<subseteq> {None} \<Longrightarrow>
     Append d b =
       (None, d\<lparr>contents := contents d @ wire_chunk b, wfaults := drop 4 (wfaults d)\<rparr>) \<and>
     wire_chunk b =
       [0x24, 0x71, 0x62, 0x96] @
       [word_of_nat (length b div 256), word_of_nat (length b mod 256)] @ b @
       encodeU32 (crc_update 0 ([0x24, 0x71, 0x62, 0x96] @
         [word_of_nat (length b div 256), word_of_nat (length b mod 256)] @ b)) \<and>
     length (wire_chunk b) = 10 + length b"
  by (simp add: Append_ok) (simp add: wire_chunk_def cookie_bytes encodeU16_length)

theorem Append_writes_chunk_witness:
  "length [97, 98, 99, 100 :: byte] \<le> 1024 \<and> set (take 4 (wfaults empty_log)) \<subseteq> {None} \<and>
   Append empty_log [97, 98, 99, 100] =
     (None, \<lparr>contents = [0x24, 0x71, 0x62, 0x96, 0, 4, 97, 98, 99, 100, 0x65, 0x74, 0x4C, 0x47],
             wfaults = []\<rparr>)"
  using Append_writes_chunk [of "[97, 98, 99, 100]" empty_log]
  by (simp add: empty_log_def crc_eval encodeU32_def)

section \<open>The inner loop finds the next cookie\<close>

lemma and3_mod4: "(n::nat) AND 3 = n mod 4"
proof -
  have "n AND mask 2 = take_bit 2 n"
    by (simp add: take_bit_eq_mask)
  then show ?thesis
    by (simp add: mask_eq_exp_minus_1 take_bit_eq_mod)
qed

lemma isCookie_window: "isCookie sync sp \<longleftrightarrow> window sync sp = encodeU32 magicCookie"
  by (auto simp: isCookie_def window_def cookie_bytes and3_mod4)

lemma window_step:
  assumes "length sync = 4"
  shows "window (sync[sp mod 4 := c]) (sp + 1) = tl (window sync sp) @ [c]"
proof -
  obtain w x y z where sync: "sync = [w, x, y, z]"
    using assms by (auto simp: length_Suc_conv numeral_eq_Suc)
  have "sp mod 4 = 0 \<or> sp mod 4 = 1 \<or> sp mod 4 = 2 \<or> sp mod 4 = 3"
    by arith
  then show ?thesis
  proof (elim disjE)
    assume m: "sp mod 4 = 0"
    then have "(sp + 1) mod 4 = 1" "(sp + 2) mod 4 = 2" "(sp + 3) mod 4 = 3" "(sp + 1 + 3) mod 4 = 0"
      by presburger+
    then show ?thesis
      by (simp add: window_def sync m add.commute)
  next
    assume m: "sp mod 4 = 1"
    then have "(sp + 1) mod 4 = 2" "(sp + 2) mod 4 = 3" "(sp + 3) mod 4 = 0" "(sp + 1 + 3) mod 4 = 1"
      by presburger+
    then show ?thesis
      by (simp add: window_def sync m add.commute)
  next
    assume m: "sp mod 4 = 2"
    then have "(sp + 1) mod 4 = 3" "(sp + 2) mod 4 = 0" "(sp + 3) mod 4 = 1" "(sp + 1 + 3) mod 4 = 2"
      by presburger+
    then show ?thesis
      by (simp add: window_def sync m add.commute)
  next
    assume m: "sp mod 4 = 3"
    then have "(sp + 1) mod 4 = 0" "(sp + 2) mod 4 = 1" "(sp + 3) mod 4 = 2" "(sp + 1 + 3) mod 4 = 3"
      by presburger+
    then show ?thesis
      by (simp add: window_def sync m add.commute)
  qed
qed

lemma ReadFull_ok:
  "pos + n \<le> length data \<Longrightarrow> ReadFull data pos n = (Inr (take n (drop pos data)), pos + n)"
  by (auto simp: ReadFull_def)

lemma ReadFull_short:
  "0 < n \<Longrightarrow> length data < pos + n \<Longrightarrow> \<exists>e pos'. ReadFull data pos n = (Inl e, pos') \<and> (e = EOF \<or> e = ErrUnexpectedEOF)"
  by (auto simp: ReadFull_def)

lemma readU8_ok: "pos < length data \<Longrightarrow> readU8 data pos = (Inr (data ! pos), pos + 1)"
  by (simp add: readU8_def ReadFull_ok take_Suc_conv_app_nth hd_drop_conv_nth)

lemma readU8_eof: "length data \<le> pos \<Longrightarrow> readU8 data pos = (Inl EOF, pos)"
  by (simp add: readU8_def ReadFull_def)

lemma readU16_ok:
  "pos + 2 \<le> length data \<Longrightarrow> readU16 data pos = (Inr (decodeU16 (take 2 (drop pos data))), pos + 2)"
  by (simp add: readU16_def ReadFull_ok)

lemma readU16_eof: "length data < pos + 2 \<Longrightarrow> \<exists>pos'. readU16 data pos = (Inl EOF, pos')"
  by (auto simp: readU16_def ReadFull_def)

lemma readU32_ok:
  "pos + 4 \<le> length data \<Longrightarrow> readU32 data pos = (Inr (decodeU32 (take 4 (drop pos data))), pos + 4)"
  by (simp add: readU32_def ReadFull_ok)

lemma readU32_eof: "length data < pos + 4 \<Longrightarrow> \<exists>pos'. readU32 data pos = (Inl EOF, pos')"
  by (auto simp: readU32_def ReadFull_def)

lemma take4_slide:
  assumes "p + 4 < length data"
  shows "tl (take 4 (drop p data)) @ [data ! (p + 4)] = take 4 (drop (p + 1) data)"
proof -
  have "take 4 (drop (p + 1) data) = take 3 (drop (p + 1) data) @ [drop (p + 1) data ! 3]"
    using assms by (simp add: take_Suc_conv_app_nth numeral_eq_Suc)
  moreover have "tl (take 4 (drop p data)) = take 3 (drop (p + 1) data)"
    by (simp add: tl_take drop_Suc tl_drop)
  moreover have "drop (p + 1) data ! 3 = data ! (p + 4)"
    using assms by (simp add: add.commute)
  ultimately show ?thesis
    by simp
qed

lemma cookie_at_length: "cookie_at data p \<Longrightarrow> p + 4 \<le> length data"
proof -
  assume "cookie_at data p"
  then have "length (take 4 (drop p data)) = 4"
    by (simp add: cookie_at_def)
  then show ?thesis
    by simp
qed

lemma seekCookie_next:
  assumes "length sync = 4" and "pos = p + 4" and "pos \<le> length data"
    and "window sync sp = take 4 (drop p data)"
  shows "seekCookie data sync sp (int p) pos =
    (case next_cookie data p of None \<Rightarrow> Inl EOF | Some q \<Rightarrow> Inr (int q, q + 4))"
  using assms
proof (induction "length data - pos" arbitrary: sync sp p pos)
  case 0
  then have full: "pos = length data"
    by simp
  show ?case
  proof (cases "cookie_at data p")
    case True
    with 0 show ?thesis
      by (subst seekCookie.simps, subst next_cookie.simps)
        (simp add: isCookie_window cookie_at_def)
  next
    case False
    with 0 full show ?thesis
      by (subst seekCookie.simps, subst next_cookie.simps, subst next_cookie.simps)
        (simp add: isCookie_window cookie_at_def readU8_eof)
  qed
next
  case (Suc n)
  then have more: "pos < length data"
    by simp
  show ?case
  proof (cases "cookie_at data p")
    case True
    with Suc.prems show ?thesis
      by (subst seekCookie.simps, subst next_cookie.simps)
        (simp add: isCookie_window cookie_at_def)
  next
    case False
    let ?c = "data ! pos"
    have "window (sync[sp mod 4 := ?c]) (sp + 1) = tl (window sync sp) @ [?c]"
      using Suc.prems(1) by (rule window_step)
    also have "\<dots> = tl (take 4 (drop p data)) @ [data ! (p + 4)]"
      using Suc.prems by simp
    also have "\<dots> = take 4 (drop (p + 1) data)"
      using Suc.prems more by (intro take4_slide) simp
    finally have win: "window (sync[sp mod 4 := ?c]) (sp + 1) = take 4 (drop (p + 1) data)" .
    have "seekCookie data (sync[sp mod 4 := ?c]) (sp + 1) (int (p + 1)) (pos + 1) =
      (case next_cookie data (p + 1) of None \<Rightarrow> Inl EOF | Some q \<Rightarrow> Inr (int q, q + 4))"
      using Suc.hyps(2) Suc.prems more win
      by (intro Suc.hyps(1)) simp_all
    moreover have "next_cookie data p = next_cookie data (p + 1)"
      using False Suc.prems by (subst next_cookie.simps) simp
    moreover have "seekCookie data sync sp (int p) pos =
      seekCookie data (sync[sp mod 4 := ?c]) (sp + 1) (int (p + 1)) (pos + 1)"
      using False Suc.prems more
      by (subst seekCookie.simps) (simp add: isCookie_window cookie_at_def readU8_ok and3_mod4 add.commute)
    ultimately show ?thesis
      by simp
  qed
qed


lemma next_cookie_SomeD:
  "next_cookie data p = Some q \<Longrightarrow>
     p \<le> q \<and> cookie_at data q \<and> (\<forall>r. p \<le> r \<and> r < q \<longrightarrow> \<not> cookie_at data r)"
proof (induction data p rule: next_cookie.induct)
  case (1 data p)
  show ?case
  proof (cases "cookie_at data p")
    case True
    with "1.prems" cookie_at_length [OF True] show ?thesis
      by (subst (asm) next_cookie.simps) auto
  next
    case False
    from "1.prems" have long: "\<not> length data < p + 4"
      by (subst (asm) next_cookie.simps) (auto split: if_splits)
    from "1.prems" False long have "next_cookie data (p + 1) = Some q"
      by (subst (asm) next_cookie.simps) simp
    with "1.IH" [OF long False] have
      "p + 1 \<le> q \<and> cookie_at data q \<and> (\<forall>r. p + 1 \<le> r \<and> r < q \<longrightarrow> \<not> cookie_at data r)"
      by simp
    then have a: "p \<le> q" and b: "cookie_at data q"
      and c: "\<And>r. p + 1 \<le> r \<Longrightarrow> r < q \<Longrightarrow> \<not> cookie_at data r"
      by auto
    have "\<not> cookie_at data r" if "p \<le> r" "r < q" for r
    proof (cases "r = p")
      case True
      with False show ?thesis by simp
    next
      case False
      with that have "p + 1 \<le> r" by simp
      with c that show ?thesis by blast
    qed
    with a b show ?thesis
      by blast
  qed
qed

lemma next_cookie_NoneD:
  "next_cookie data p = None \<Longrightarrow> p \<le> r \<Longrightarrow> \<not> cookie_at data r"
proof (induction data p rule: next_cookie.induct)
  case (1 data p)
  show ?case
  proof (cases "length data < p + 4")
    case True
    with "1.prems"(2) show ?thesis
      using cookie_at_length [of data r] by auto
  next
    case False
    from "1.prems"(1) False have nc: "\<not> cookie_at data p"
      by (subst (asm) next_cookie.simps) (auto split: if_splits)
    with "1.prems"(1) False have "next_cookie data (p + 1) = None"
      by (subst (asm) next_cookie.simps) simp
    with "1.IH" [OF False nc] have "p + 1 \<le> r \<Longrightarrow> \<not> cookie_at data r"
      by simp
    with nc "1.prems"(2) show ?thesis
      by (cases "r = p") auto
  qed
qed

lemma next_cookie_first:
  "cookie_at data q \<Longrightarrow> p \<le> q \<Longrightarrow> (\<forall>r. p \<le> r \<and> r < q \<longrightarrow> \<not> cookie_at data r) \<Longrightarrow>
     next_cookie data p = Some q"
proof (cases "next_cookie data p")
  case None
  assume "cookie_at data q" "p \<le> q"
  with next_cookie_NoneD [OF None] show ?thesis
    by blast
next
  case (Some q')
  assume q: "cookie_at data q" "p \<le> q" "\<forall>r. p \<le> r \<and> r < q \<longrightarrow> \<not> cookie_at data r"
  from next_cookie_SomeD [OF Some] have q': "p \<le> q'" "cookie_at data q'"
    "\<And>r. p \<le> r \<Longrightarrow> r < q' \<Longrightarrow> \<not> cookie_at data r"
    by auto
  have "\<not> q < q'"
    using q'(3) [of q] q by auto
  moreover have "\<not> q' < q"
    using q(3) q' by auto
  ultimately have "q' = q"
    by simp
  with Some show ?thesis
    by simp
qed

lemma next_cookie_none:
  "(\<forall>r. p \<le> r \<longrightarrow> \<not> cookie_at data r) \<Longrightarrow> next_cookie data p = None"
proof (cases "next_cookie data p")
  case None
  then show ?thesis .
next
  case (Some q)
  assume "\<forall>r. p \<le> r \<longrightarrow> \<not> cookie_at data r"
  with next_cookie_SomeD [OF Some] show ?thesis
    by blast
qed


lemma Lookup_pass_neg: "offset < 0 \<Longrightarrow> Lookup_pass data offset = Return (Inl (ErrIO 22))"
  by (simp add: Lookup_pass_def Seek_def)

lemma window_start:
  assumes "length sync = 4"
  shows "window sync 0 = sync"
proof -
  obtain w x y z where "sync = [w, x, y, z]"
    using assms by (auto simp: length_Suc_conv numeral_eq_Suc)
  then show ?thesis
    by (simp add: window_def)
qed

lemma Lookup_pass_scan:
  assumes "0 \<le> offset"
  shows "Lookup_pass data offset =
    (case next_cookie data (nat offset) of
       None \<Rightarrow> Return (Inl EOF)
     | Some q \<Rightarrow> Lookup_chunk data (int q) (q + 4))"
proof (cases "nat offset + 4 \<le> length data")
  case True
  let ?sync = "take 4 (drop (nat offset) data)"
  have rf: "ReadFull data (nat offset) 4 = (Inr ?sync, nat offset + 4)"
    using True by (rule ReadFull_ok)
  have "seekCookie data ?sync 0 (int (nat offset)) (nat offset + 4) =
    (case next_cookie data (nat offset) of None \<Rightarrow> Inl EOF | Some q \<Rightarrow> Inr (int q, q + 4))"
    using True by (intro seekCookie_next) (simp_all add: window_start)
  then have sk: "seekCookie data ?sync 0 offset (nat offset + 4) =
    (case next_cookie data (nat offset) of None \<Rightarrow> Inl EOF | Some q \<Rightarrow> Inr (int q, q + 4))"
    using assms by simp
  have "Lookup_pass data offset =
    (case seekCookie data ?sync 0 offset (nat offset + 4) of
       Inl err \<Rightarrow> Return (Inl err)
     | Inr (offset', pos) \<Rightarrow> Lookup_chunk data offset' pos)"
    using assms unfolding Lookup_pass_def Seek_def by (simp add: rf)
  then show ?thesis
    unfolding sk by (cases "next_cookie data (nat offset)") simp_all
next
  case False
  then have nc: "next_cookie data (nat offset) = None"
    by (subst next_cookie.simps) simp
  from False have "\<exists>e pos'. ReadFull data (nat offset) 4 = (Inl e, pos') \<and> (e = EOF \<or> e = ErrUnexpectedEOF)"
    by (intro ReadFull_short) simp_all
  then obtain e pos' where rf: "ReadFull data (nat offset) 4 = (Inl e, pos')"
    and e: "e = EOF \<or> e = ErrUnexpectedEOF"
    by blast
  have "Lookup_pass data offset = Return (Inl EOF)"
    using assms e unfolding Lookup_pass_def Seek_def by (auto simp: rf)
  then show ?thesis
    by (simp add: nc)
qed


section \<open>One pass of the outer loop\<close>

lemma encode_decodeU16: "length xs = 2 \<Longrightarrow> encodeU16 (decodeU16 xs) = xs"
proof -
  assume "length xs = 2"
  then obtain a b where "xs = [a, b]"
    by (auto simp: length_Suc_conv numeral_eq_Suc)
  then show ?thesis
    by (simp add: encode_decodeU16_pair)
qed

lemma encode_decodeU32: "length xs = 4 \<Longrightarrow> encodeU32 (decodeU32 xs) = xs"
proof -
  assume "length xs = 4"
  then obtain a b c d where "xs = [a, b, c, d]"
    by (auto simp: length_Suc_conv numeral_eq_Suc)
  then show ?thesis
    by (simp add: encode_decodeU32_quad)
qed

lemma Lookup_chunk_unfold:
  "Lookup_chunk data offset pos =
     (case readU16 data pos of
        (Inl err, pos1) \<Rightarrow> Return (Inl err)
      | (Inr sz, pos1) \<Rightarrow>
          if unat sz > 1024 then Continue (offset + 1)
          else
            (case ReadFull data pos1 (unat sz) of
               (Inl err, pos2) \<Rightarrow> Return (Inl (if err = ErrUnexpectedEOF then EOF else err))
             | (Inr b, pos2) \<Rightarrow>
                 (case readU32 data pos2 of
                    (Inl err, pos3) \<Rightarrow> Return (Inl err)
                  | (Inr stored, pos3) \<Rightarrow>
                      if crc_update 0 (encodeU32 magicCookie @ encodeU16 sz @ b) \<noteq> stored
                      then Continue (offset + 1)
                      else Return (Inr (b, offset + 10 + int (length b))))))"
  by (simp add: Lookup_chunk_def Let_def digest_Write_def NewIEEE_def Sum32_def crc_update_append
      maxChunkSize_def chunkMetadataSize_def split: prod.split sum.split)

lemma Lookup_chunk_valid:
  assumes "length b \<le> 1024"
  shows "Lookup_chunk (pre @ wire_chunk b @ post) (int (length pre)) (length pre + 4) =
    Return (Inr (b, int (length pre) + 10 + int (length b)))"
proof -
  let ?n = "length b"
  let ?ck = "encodeU32 magicCookie"
  let ?ln = "encodeU16 (word_of_nat ?n)"
  let ?crc = "crc_update 0 (?ck @ ?ln @ b)"
  let ?data = "pre @ wire_chunk b @ post"
  have data: "?data = pre @ ?ck @ ?ln @ b @ encodeU32 ?crc @ post"
    by (simp add: wire_chunk_def)
  have r16: "readU16 ?data (length pre + 4) = (Inr (word_of_nat ?n), length pre + 6)"
    unfolding data by (simp add: readU16_ok decode_encodeU16)
  have n: "unat (word_of_nat ?n :: 16 word) = ?n"
    using assms by (rule unat_length16)
  have rf: "ReadFull ?data (length pre + 6) ?n = (Inr b, length pre + 6 + ?n)"
    unfolding data by (simp add: ReadFull_ok)
  have r32: "readU32 ?data (length pre + 6 + ?n) = (Inr ?crc, length pre + 6 + ?n + 4)"
    unfolding data by (simp add: readU32_ok decode_encodeU32)
  show ?thesis
    using assms by (simp add: Lookup_chunk_unfold r16 n rf r32)
qed

lemma take_chunk_split:
  assumes "q + 10 + n \<le> length data"
  shows "take (10 + n) (drop q data) =
    take 4 (drop q data) @ take 2 (drop (q + 4) data) @ take n (drop (q + 6) data) @
    take 4 (drop (q + 6 + n) data)"
proof -
  have "take (10 + n) (drop q data) = take (4 + (2 + (n + 4))) (drop q data)"
    by (simp add: add.commute)
  also have "\<dots> = take 4 (drop q data) @ take (2 + (n + 4)) (drop (q + 4) data)"
    by (simp only: take_add drop_drop add.commute [of 4 q])
  also have "take (2 + (n + 4)) (drop (q + 4) data) =
      take 2 (drop (q + 4) data) @ take (n + 4) (drop (q + 6) data)"
    by (simp only: take_add drop_drop) (simp add: add.commute)
  also have "take (n + 4) (drop (q + 6) data) =
      take n (drop (q + 6) data) @ take 4 (drop (q + 6 + n) data)"
    by (simp only: take_add drop_drop) (simp add: add.commute)
  finally show ?thesis .
qed

lemma Lookup_chunk_outcome:
  assumes "cookie_at data q"
  shows "Lookup_chunk data (int q) (q + 4) = Continue (int q + 1) \<or>
    Lookup_chunk data (int q) (q + 4) = Return (Inl EOF) \<or>
    (\<exists>b. Lookup_chunk data (int q) (q + 4) = Return (Inr (b, int q + 10 + int (length b))) \<and>
       length b \<le> 1024 \<and> take (10 + length b) (drop q data) = wire_chunk b)"
proof (cases "q + 6 \<le> length data")
  case False
  then obtain pos' where "readU16 data (q + 4) = (Inl EOF, pos')"
    using readU16_eof [of data "q + 4"] by auto
  then show ?thesis
    by (simp add: Lookup_chunk_unfold)
next
  case len6: True
  define sz where "sz = decodeU16 (take 2 (drop (q + 4) data))"
  define n where "n = unat sz"
  have r16: "readU16 data (q + 4) = (Inr sz, q + 6)"
    using len6 by (simp add: readU16_ok sz_def)
  show ?thesis
  proof (cases "1024 < n")
    case True
    then show ?thesis
      by (simp add: Lookup_chunk_unfold r16 n_def)
  next
    case small: False
    show ?thesis
    proof (cases "q + 6 + n \<le> length data")
      case False
      then have "0 < n"
        using len6 by simp
      from ReadFull_short [OF this, of data "q + 6"] False
      obtain e pos' where "ReadFull data (q + 6) n = (Inl e, pos')" "e = EOF \<or> e = ErrUnexpectedEOF"
        by auto
      then show ?thesis
        using small by (auto simp: Lookup_chunk_unfold r16 n_def)
    next
      case lenb: True
      define b where "b = take n (drop (q + 6) data)"
      have lb: "length b = n"
        using lenb by (simp add: b_def)
      have rf: "ReadFull data (q + 6) n = (Inr b, q + 6 + n)"
        using lenb by (simp add: ReadFull_ok b_def)
      show ?thesis
      proof (cases "q + 6 + n + 4 \<le> length data")
        case False
        then obtain pos' where "readU32 data (q + 6 + n) = (Inl EOF, pos')"
          using readU32_eof [of data "q + 6 + n"] by auto
        then show ?thesis
          using small by (simp add: Lookup_chunk_unfold r16 rf n_def [symmetric])
      next
        case lenc: True
        define stored where "stored = decodeU32 (take 4 (drop (q + 6 + n) data))"
        have r32: "readU32 data (q + 6 + n) = (Inr stored, q + 6 + n + 4)"
          using lenc by (simp add: readU32_ok stored_def)
        let ?crc = "crc_update 0 (encodeU32 magicCookie @ encodeU16 sz @ b)"
        show ?thesis
        proof (cases "?crc = stored")
          case False
          then show ?thesis
            using small by (simp add: Lookup_chunk_unfold r16 rf r32 n_def [symmetric])
        next
          case True
          have res: "Lookup_chunk data (int q) (q + 4) = Return (Inr (b, int q + 10 + int (length b)))"
            using small True by (simp add: Lookup_chunk_unfold r16 rf r32 n_def [symmetric])
          have sz: "word_of_nat n = sz"
            by (simp add: n_def)
          have "take (10 + n) (drop q data) =
            take 4 (drop q data) @ take 2 (drop (q + 4) data) @ take n (drop (q + 6) data) @
            take 4 (drop (q + 6 + n) data)"
            using lenc by (intro take_chunk_split) simp
          moreover have "take 4 (drop q data) = encodeU32 magicCookie"
            using assms by (simp add: cookie_at_def)
          moreover have "take 2 (drop (q + 4) data) = encodeU16 sz"
            using len6 by (simp add: sz_def encode_decodeU16)
          moreover have "take 4 (drop (q + 6 + n) data) = encodeU32 ?crc"
            using lenc True by (simp add: stored_def encode_decodeU32)
          ultimately have "take (10 + length b) (drop q data) = wire_chunk b"
            by (simp add: wire_chunk_def lb sz b_def [symmetric])
          with res small lb show ?thesis
            by auto
        qed
      qed
    qed
  qed
qed


section \<open>Lookup returns, and what it returns\<close>

lemma Lookup_outcome:
  "\<exists>r. Lookup data offset = Some r \<and>
     (offset < 0 \<and> r = Inl (ErrIO 22) \<or>
      0 \<le> offset \<and>
        (r = Inl EOF \<or>
         (\<exists>q b. r = Inr (b, int q + 10 + int (length b)) \<and> nat offset \<le> q \<and>
            length b \<le> 1024 \<and> take (10 + length b) (drop q data) = wire_chunk b)))"
proof (induction "length data - nat offset" arbitrary: offset rule: less_induct)
  case less
  show ?case
  proof (cases "offset < 0")
    case True
    then show ?thesis
      by (subst Lookup.simps) (simp add: Lookup_pass_neg)
  next
    case False
    then have pos: "0 \<le> offset"
      by simp
    show ?thesis
    proof (cases "next_cookie data (nat offset)")
      case None
      with pos show ?thesis
        by (subst Lookup.simps) (simp add: Lookup_pass_scan)
    next
      case (Some q)
      from next_cookie_SomeD [OF Some] have q: "nat offset \<le> q" "cookie_at data q"
        by auto
      have pass: "Lookup_pass data offset = Lookup_chunk data (int q) (q + 4)"
        using pos Some by (simp add: Lookup_pass_scan)
      from Lookup_chunk_outcome [OF q(2)] consider
          (again) "Lookup_chunk data (int q) (q + 4) = Continue (int q + 1)"
        | (eof) "Lookup_chunk data (int q) (q + 4) = Return (Inl EOF)"
        | (found) b where "Lookup_chunk data (int q) (q + 4) = Return (Inr (b, int q + 10 + int (length b)))"
            "length b \<le> 1024" "take (10 + length b) (drop q data) = wire_chunk b"
        by blast
      then show ?thesis
      proof cases
        case again
        have step: "Lookup data offset = Lookup data (int q + 1)"
          by (subst Lookup.simps) (simp add: pass again)
        have "length data - nat (int q + 1) < length data - nat offset"
          using q cookie_at_length [OF q(2)] pos by simp
        from less [OF this] obtain r where r: "Lookup data (int q + 1) = Some r"
          and "r = Inl EOF \<or>
            (\<exists>q' b. r = Inr (b, int q' + 10 + int (length b)) \<and> nat (int q + 1) \<le> q' \<and>
               length b \<le> 1024 \<and> take (10 + length b) (drop q' data) = wire_chunk b)"
          by auto
        then have "r = Inl EOF \<or>
            (\<exists>q' b. r = Inr (b, int q' + 10 + int (length b)) \<and> nat offset \<le> q' \<and>
               length b \<le> 1024 \<and> take (10 + length b) (drop q' data) = wire_chunk b)"
          using q(1) by auto
        with r step pos show ?thesis
          by simp
      next
        case eof
        have "Lookup data offset = Some (Inl EOF)"
          by (subst Lookup.simps) (simp add: pass eof)
        with pos show ?thesis
          by simp
      next
        case found
        have "Lookup data offset = Some (Inr (b, int q + 10 + int (length b)))"
          by (subst Lookup.simps) (simp add: pass found)
        with pos found q(1) show ?thesis
          by auto
      qed
    qed
  qed
qed

lemma Lookup_pass_progress:
  assumes "Lookup_pass data offset = Continue offset'"
  shows "offset < offset' \<and> offset' < int (length data)"
proof -
  have pos: "0 \<le> offset"
    using assms by (cases "offset < 0") (simp_all add: Lookup_pass_neg)
  show ?thesis
  proof (cases "next_cookie data (nat offset)")
    case None
    with pos assms show ?thesis
      by (simp add: Lookup_pass_scan)
  next
    case (Some q)
    from next_cookie_SomeD [OF Some] have q: "nat offset \<le> q" "cookie_at data q"
      by auto
    have "Lookup_chunk data (int q) (q + 4) = Continue offset'"
      using pos Some assms by (simp add: Lookup_pass_scan)
    with Lookup_chunk_outcome [OF q(2)] have "offset' = int q + 1"
      by auto
    with q cookie_at_length [OF q(2)] pos show ?thesis
      by auto
  qed
qed

lemma Lookup_at_chunk:
  assumes "length b \<le> 1024"
  shows "Lookup (pre @ wire_chunk b @ post) (int (length pre)) =
    Some (Inr (b, int (length pre) + 10 + int (length b)))"
proof -
  let ?data = "pre @ wire_chunk b @ post"
  have "cookie_at ?data (length pre)"
    by (simp add: cookie_at_def wire_chunk_def)
  then have "next_cookie ?data (length pre) = Some (length pre)"
    by (intro next_cookie_first) auto
  then have "Lookup_pass ?data (int (length pre)) =
      Return (Inr (b, int (length pre) + 10 + int (length b)))"
    using assms by (simp add: Lookup_pass_scan Lookup_chunk_valid)
  then show ?thesis
    by (subst Lookup.simps) simp
qed

text \<open>
  Claim C7. On every file and from every offset \<open>Lookup\<close> returns: with the error of the
  seek, with end of stream, or with a payload whose chunk stands in the file. A pass that
  goes round the loop again does so from an offset larger than the one it started with and
  inside the file, which is why the loop ends.
\<close>

theorem Lookup_terminates:
  "(\<exists>r. Lookup data offset = Some r \<and>
      (r = Inl (ErrIO 22) \<or> r = Inl EOF \<or>
       (\<exists>q b. r = Inr (b, int q + 10 + int (length b)) \<and>
          take (10 + length b) (drop q data) = wire_chunk b))) \<and>
   (\<forall>offset'. Lookup_pass data offset = Continue offset' \<longrightarrow>
      offset < offset' \<and> offset' < int (length data))"
  using Lookup_outcome [of data offset] Lookup_pass_progress [of data offset]
  by blast

theorem Lookup_terminates_witness:
  "Lookup_pass [0, 0, 0x24, 0x71, 0x62, 0x96, 0x04, 0x01] 0 = Continue 3 \<and>
   (0::int) < 3 \<and> 3 < int (length [0, 0, 0x24, 0x71, 0x62, 0x96, 0x04, 0x01 :: byte]) \<and>
   (\<exists>r. Lookup [0, 0, 0x24, 0x71, 0x62, 0x96, 0x04, 0x01] 0 = Some r)"
proof -
  have "Lookup_pass [0, 0, 0x24, 0x71, 0x62, 0x96, 0x04, 0x01] 0 = Continue 3"
    by (simp add: Lookup_pass_scan next_cookie.simps cookie_at_def cookie_bytes
        Lookup_chunk_unfold readU16_def ReadFull_def decodeU16_def)
  with Lookup_terminates [of "[0, 0, 0x24, 0x71, 0x62, 0x96, 0x04, 0x01]" 0] show ?thesis
    by auto
qed

text \<open>
  Claim C9. When \<open>Lookup\<close> returns a payload, the next offset is at least the requested
  offset plus 10 and so larger than it: it is the position of a cookie at or after the
  requested offset, plus 10, plus the length of the payload.
\<close>

theorem Lookup_next_offset:
  "Lookup data offset = Some (Inr (b, next)) \<Longrightarrow>
     offset + 10 \<le> next \<and> offset < next \<and>
     (\<exists>q. offset \<le> int q \<and> cookie_at data q \<and> next = int q + 10 + int (length b))"
proof -
  assume l: "Lookup data offset = Some (Inr (b, next))"
  with Lookup_outcome [of data offset] obtain q where q: "0 \<le> offset" "nat offset \<le> q"
    "next = int q + 10 + int (length b)" "take (10 + length b) (drop q data) = wire_chunk b"
    by auto
  have "take 4 (take (10 + length b) (drop q data)) = encodeU32 magicCookie"
    unfolding q(4) by (simp add: wire_chunk_def)
  then have "cookie_at data q"
    by (simp add: cookie_at_def)
  with q show ?thesis
    by auto
qed

theorem Lookup_next_offset_witness:
  "Lookup (wire_chunk [97, 98, 99, 100]) 0 = Some (Inr ([97, 98, 99, 100], 14)) \<and>
   (0::int) + 10 \<le> 14 \<and>
   (\<exists>q. 0 \<le> int q \<and> cookie_at (wire_chunk [97, 98, 99, 100]) q \<and>
      (14::int) = int q + 10 + int (length [97, 98, 99, 100 :: byte]))"
proof -
  have l: "Lookup (wire_chunk [97, 98, 99, 100]) 0 = Some (Inr ([97, 98, 99, 100], 14))"
    using Lookup_at_chunk [of "[97, 98, 99, 100]" "[]" "[]"] by simp
  from Lookup_next_offset [OF l] l show ?thesis
    by simp
qed

text \<open>
  Claim C10. A payload that \<open>Lookup\<close> returns is at most 1024 bytes long, whatever the bytes
  of the file.
\<close>

theorem Lookup_payload_bound:
  "Lookup data offset = Some (Inr (b, next)) \<Longrightarrow> length b \<le> 1024"
  using Lookup_outcome [of data offset] by auto


theorem Lookup_payload_bound_witness:
  "Lookup ([0] @ wire_chunk [101, 102, 103, 104] @ [7]) 1 = Some (Inr ([101, 102, 103, 104], 15)) \<and>
   length [101, 102, 103, 104 :: byte] \<le> 1024"
proof -
  have l: "Lookup ([0] @ wire_chunk [101, 102, 103, 104] @ [7]) 1 =
      Some (Inr ([101, 102, 103, 104], 15))"
    using Lookup_at_chunk [of "[101, 102, 103, 104]" "[0]" "[7]"] by simp
  from Lookup_payload_bound [OF l] l show ?thesis
    by simp
qed

lemma ReadFull_4D:
  assumes "ReadFull data p 4 = (Inr sync, pos)"
  shows "p + 4 \<le> length data \<and> sync = take 4 (drop p data) \<and> pos = p + 4"
  using assms by (auto simp: ReadFull_def split: if_splits)




section \<open>Reading back what was appended\<close>

lemma length_wire_chunk [simp]: "length (wire_chunk b) = 10 + length b"
  by (simp add: wire_chunk_def)

lemma append_all_contents:
  assumes "\<forall>b\<in>set bs. length b \<le> 1024" and "set (wfaults d) \<subseteq> {None}"
  shows "append_all d bs =
    (None, d\<lparr>contents := contents d @ concat (map wire_chunk bs),
              wfaults := drop (4 * length bs) (wfaults d)\<rparr>)"
  using assms
proof (induction bs arbitrary: d)
  case Nil
  then show ?case
    by simp
next
  case (Cons b bs)
  let ?d = "d\<lparr>contents := contents d @ wire_chunk b, wfaults := drop 4 (wfaults d)\<rparr>"
  have "set (take 4 (wfaults d)) \<subseteq> {None}"
    using Cons.prems(2) by (meson in_set_takeD subsetD subsetI)
  with Cons.prems(1) have a: "Append d b = (None, ?d)"
    by (simp add: Append_ok)
  have "set (wfaults ?d) \<subseteq> {None}"
    using Cons.prems(2) by (auto dest: in_set_dropD)
  with Cons.IH [of ?d] Cons.prems(1) have "append_all ?d bs =
    (None, ?d\<lparr>contents := contents ?d @ concat (map wire_chunk bs),
               wfaults := drop (4 * length bs) (wfaults ?d)\<rparr>)"
    by simp
  with a show ?case
    by (simp add: add.commute)
qed

lemma replay_chained:
  assumes "\<forall>b\<in>set bs. length b \<le> 1024"
  shows "replay (pre @ concat (map wire_chunk bs) @ post) (int (length pre)) (length bs) =
    chained (int (length pre)) bs"
  using assms
proof (induction bs arbitrary: pre)
  case Nil
  then show ?case
    by simp
next
  case (Cons b bs)
  let ?post = "concat (map wire_chunk bs) @ post"
  have l: "Lookup (pre @ wire_chunk b @ ?post) (int (length pre)) =
      Some (Inr (b, int (length pre) + 10 + int (length b)))"
    using Cons.prems by (intro Lookup_at_chunk) simp
  have "replay ((pre @ wire_chunk b) @ concat (map wire_chunk bs) @ post)
      (int (length (pre @ wire_chunk b))) (length bs) =
    chained (int (length (pre @ wire_chunk b))) bs"
    using Cons.prems by (intro Cons.IH) simp
  with l show ?case
    by (simp add: add.assoc)
qed

lemma map_fst_chained: "map fst (chained offset bs) = bs"
  by (induction bs arbitrary: offset) simp_all

text \<open>
  Claim C1. Payloads of at most 1024 bytes each are appended in order to an empty file whose
  write handle does not fail; a reader then calls \<open>Lookup\<close> once for each payload, first with
  offset 0 and then with the offset of the call before. It is given the payloads in their
  order, each with the offset of the call plus 10 plus the length of the payload. For one
  payload \<open>b\<close> that is \<open>(b, 10 + length b)\<close>.
\<close>

theorem append_then_replay:
  assumes "\<forall>b\<in>set bs. length b \<le> 1024" and "length b \<le> 1024"
    and "contents d = []" and "set (wfaults d) \<subseteq> {None}"
  shows "Lookup (contents (snd (Append d b))) 0 = Some (Inr (b, 10 + int (length b))) \<and>
    fst (append_all d bs) = None \<and>
    replay (contents (snd (append_all d bs))) 0 (length bs) = chained 0 bs \<and>
    map fst (chained 0 bs) = bs"
proof -
  have "set (take 4 (wfaults d)) \<subseteq> {None}"
    using assms(4) by (meson in_set_takeD subsetD subsetI)
  with assms(2,3) have "contents (snd (Append d b)) = wire_chunk b"
    by (simp add: Append_ok)
  moreover have "Lookup ([] @ wire_chunk b @ []) (int (length ([] :: byte list))) =
      Some (Inr (b, int (length ([] :: byte list)) + 10 + int (length b)))"
    using assms(2) by (rule Lookup_at_chunk)
  ultimately have one: "Lookup (contents (snd (Append d b))) 0 = Some (Inr (b, 10 + int (length b)))"
    by simp
  have all: "append_all d bs =
    (None, d\<lparr>contents := contents d @ concat (map wire_chunk bs),
              wfaults := drop (4 * length bs) (wfaults d)\<rparr>)"
    using assms(1,4) by (rule append_all_contents)
  have "replay ([] @ concat (map wire_chunk bs) @ []) (int (length ([] :: byte list))) (length bs) =
      chained (int (length ([] :: byte list))) bs"
    using assms(1) by (rule replay_chained)
  with all assms(3) have "replay (contents (snd (append_all d bs))) 0 (length bs) = chained 0 bs"
    by simp
  with one all show ?thesis
    by (simp add: map_fst_chained)
qed

theorem append_then_replay_witness:
  "length [97, 98, 99, 100 :: byte] \<le> 1024 \<and>
   contents empty_log = [] \<and> set (wfaults empty_log) \<subseteq> {None} \<and>
   Lookup (contents (snd (Append empty_log [97, 98, 99, 100]))) 0 =
     Some (Inr ([97, 98, 99, 100], 14)) \<and>
   replay (contents (snd (append_all empty_log [[97, 98], [], [99]]))) 0
       (length [[97, 98], [], [99 :: byte]]) =
     [([97, 98], 12), ([], 22), ([99], 33)]"
proof -
  have a: "\<forall>b\<in>set [[97, 98], [], [99 :: byte]]. length b \<le> 1024"
    by simp
  have b: "length [97, 98, 99, 100 :: byte] \<le> 1024"
    by simp
  have c: "contents empty_log = []" and d: "set (wfaults empty_log) \<subseteq> {None}"
    by (simp_all add: empty_log_def)
  from append_then_replay [OF a b c d] a b c d show ?thesis
    by (simp del: append_all.simps replay.simps)
qed


section \<open>Skipping what is not a chunk\<close>

lemma next_cookie_self: "cookie_at data q \<Longrightarrow> next_cookie data q = Some q"
  by (intro next_cookie_first) auto

lemma Lookup_pass_skip:
  assumes "next_cookie data st = Some q"
  shows "Lookup_pass data (int st) = Lookup_pass data (int q)"
proof -
  from next_cookie_SomeD [OF assms] have "cookie_at data q"
    by simp
  then have "next_cookie data q = Some q"
    by (rule next_cookie_self)
  with assms show ?thesis
    by (simp add: Lookup_pass_scan)
qed

lemma Lookup_skip:
  assumes "next_cookie data st = Some q"
  shows "Lookup data (int st) = Lookup data (int q)"
  using Lookup.simps [of data "int st"] Lookup.simps [of data "int q"] Lookup_pass_skip [OF assms]
  by simp

lemma Lookup_rejected:
  assumes "next_cookie data st = Some q" and "rejected data q"
  shows "Lookup data (int st) = Lookup data (int q + 1)"
proof -
  have "Lookup_pass data (int st) = Continue (int q + 1)"
    using Lookup_pass_skip [OF assms(1)] assms(2) by (simp add: rejected_def)
  then show ?thesis
    by (subst Lookup.simps) simp
qed

lemma Lookup_resync:
  assumes "length b \<le> 1024"
    and "\<forall>p. st \<le> p \<and> p < length junk \<longrightarrow>
           cookie_at (junk @ wire_chunk b @ rest) p \<longrightarrow> rejected (junk @ wire_chunk b @ rest) p"
    and "st \<le> length junk"
  shows "Lookup (junk @ wire_chunk b @ rest) (int st) =
    Some (Inr (b, int (length junk) + 10 + int (length b)))"
  using assms(2,3)
proof (induction "length junk - st" arbitrary: st rule: less_induct)
  case less
  let ?data = "junk @ wire_chunk b @ rest"
  have here: "cookie_at ?data (length junk)"
    by (simp add: cookie_at_def wire_chunk_def)
  show ?case
  proof (cases "next_cookie ?data st")
    case None
    from next_cookie_NoneD [OF None less.prems(2)] here show ?thesis
      by simp
  next
    case (Some q)
    from next_cookie_SomeD [OF Some] have q: "st \<le> q" "cookie_at ?data q"
      "\<And>r. st \<le> r \<Longrightarrow> r < q \<Longrightarrow> \<not> cookie_at ?data r"
      by auto
    have le: "q \<le> length junk"
      using q(3) [of "length junk"] here less.prems(2) by (cases "q \<le> length junk") auto
    show ?thesis
    proof (cases "q = length junk")
      case True
      have "Lookup ?data (int st) = Lookup ?data (int (length junk))"
        using Lookup_skip [OF Some] True by simp
      with Lookup_at_chunk [OF assms(1), of junk rest] show ?thesis
        by simp
    next
      case False
      with le have lt: "q < length junk"
        by simp
      with less.prems(1) q have "rejected ?data q"
        by simp
      then have "Lookup ?data (int st) = Lookup ?data (int (q + 1))"
        using Lookup_rejected [OF Some] by (simp add: add.commute)
      moreover have "Lookup ?data (int (q + 1)) =
          Some (Inr (b, int (length junk) + 10 + int (length b)))"
        using lt q(1) less.prems(1) by (intro less.hyps) auto
      ultimately show ?thesis
        by simp
    qed
  qed
qed






section \<open>A checksum that does not match\<close>

lemmas chunk_eval = wire_chunk_def encodeU32_def encodeU16_def magicCookie_def crc_eval

lemmas Lookup_eval = Lookup_pass_scan next_cookie.simps cookie_at_def cookie_bytes
  Lookup_chunk_unfold readU16_def readU32_def ReadFull_def decodeU16_def decodeU32_def
  encodeU16_def crc_eval

lemma wire_chunk_empty:
  "wire_chunk [] = [0x24, 0x71, 0x62, 0x96, 0x00, 0x00, 0x81, 0xFC, 0xD4, 0x36]"
  by (simp add: chunk_eval)


lemma wire_chunk_efgh:
  "wire_chunk [0x65, 0x66, 0x67, 0x68] =
     [0x24, 0x71, 0x62, 0x96, 0x00, 0x04, 0x65, 0x66, 0x67, 0x68, 0x80, 0xC5, 0xFA, 0xE3]"
  by (simp add: chunk_eval)





lemma all_None_take: "set fs \<subseteq> {None} \<Longrightarrow> set (take n fs) \<subseteq> {None}"
  by (meson in_set_takeD subsetD subsetI)

lemma all_None_drop: "set fs \<subseteq> {None} \<Longrightarrow> set (drop n fs) \<subseteq> {None}"
  by (meson in_set_dropD subsetD subsetI)







section \<open>A write that was cut short\<close>

lemma Append_truncated:
  assumes "length b1 \<le> 1024" and "length b2 \<le> 1024"
    and "contents d = []" and "set (wfaults d) \<subseteq> {None}"
  shows "contents (snd (Append ((snd (Append d b1))\<lparr>contents := take k (contents (snd (Append d b1)))\<rparr>) b2)) =
    take k (wire_chunk b1) @ wire_chunk b2"
proof -
  let ?d1 = "d\<lparr>contents := contents d @ wire_chunk b1, wfaults := drop 4 (wfaults d)\<rparr>"
  have a: "Append d b1 = (None, ?d1)"
    using assms(1) all_None_take [OF assms(4)] by (simp add: Append_ok)
  let ?d2 = "?d1\<lparr>contents := take k (contents ?d1)\<rparr>"
  have "set (take 4 (wfaults ?d2)) \<subseteq> {None}"
    using all_None_take [OF all_None_drop [OF assms(4)]] by simp
  with assms(2) have "Append ?d2 b2 =
      (None, ?d2\<lparr>contents := contents ?d2 @ wire_chunk b2, wfaults := drop 4 (wfaults ?d2)\<rparr>)"
    by (rule Append_ok)
  with a assms(3) show ?thesis
    by simp
qed

lemma wire_chunk_near_cookie:
  "wire_chunk [0x24, 0x71, 0x62, 0x69] =
     [0x24, 0x71, 0x62, 0x96, 0x00, 0x04, 0x24, 0x71, 0x62, 0x69, 0xB0, 0x74, 0xB4, 0x9D]"
  by (simp add: chunk_eval)

lemma wire_chunk_nested_more:
  "wire_chunk [0x24, 0x71, 0x62, 0x96, 0x00, 0x00, 0x81, 0xFC, 0xD4, 0x36, 0x00] =
     [0x24, 0x71, 0x62, 0x96, 0x00, 0x0B, 0x24, 0x71, 0x62, 0x96, 0x00, 0x00, 0x81, 0xFC, 0xD4, 0x36,
      0x00, 0x94, 0x7D, 0x34, 0x47]"
  by (simp add: chunk_eval)

text \<open>
  Claim C3, as the code has it. The inner loop stops at the first place at or after the
  offset where the four cookie bytes stand, whatever that place is modulo 4. A chunk is
  appended to an empty file, the file is cut to its first \<open>k\<close> bytes, and a second chunk is
  appended: \<open>Lookup\<close> from 0 returns the second payload and the offset behind its chunk,
  provided that every place in the remnant where the cookie bytes stand is rejected by the
  pass that starts there.
\<close>

theorem torn_write_skipped:
  "(0 \<le> offset \<and> ReadFull data (nat offset) 4 = (Inr sync, pos) \<and>
      nat offset \<le> q \<and> cookie_at data q \<and> (\<forall>r\<in>{nat offset..<q}. \<not> cookie_at data r) \<longrightarrow>
        seekCookie data sync 0 offset pos = Inr (int q, q + 4)) \<and>
   (length b1 \<le> 1024 \<and> length b2 \<le> 1024 \<and> contents d = [] \<and> set (wfaults d) \<subseteq> {None} \<and>
      k < 10 + length b1 \<and>
      f = contents (snd (Append
            ((snd (Append d b1))\<lparr>contents := take k (contents (snd (Append d b1)))\<rparr>) b2)) \<and>
      (\<forall>p\<in>{0..<k}. cookie_at f p \<longrightarrow> rejected f p) \<longrightarrow>
        Lookup f 0 = Some (Inr (b2, int k + 10 + int (length b2))))"
proof (intro conjI impI; (elim conjE)?)
  assume pos: "0 \<le> offset" and rf: "ReadFull data (nat offset) 4 = (Inr sync, pos)"
    and q: "nat offset \<le> q" "cookie_at data q" "\<forall>r\<in>{nat offset..<q}. \<not> cookie_at data r"
  from ReadFull_4D [OF rf] have r: "nat offset + 4 \<le> length data"
    "sync = take 4 (drop (nat offset) data)" "pos = nat offset + 4"
    by auto
  have "seekCookie data sync 0 (int (nat offset)) pos =
    (case next_cookie data (nat offset) of None \<Rightarrow> Inl EOF | Some q \<Rightarrow> Inr (int q, q + 4))"
    using r by (intro seekCookie_next) (simp_all add: window_start)
  moreover have "next_cookie data (nat offset) = Some q"
    using q by (intro next_cookie_first) auto
  ultimately show "seekCookie data sync 0 offset pos = Inr (int q, q + 4)"
    using pos by simp
next
  assume len: "length b1 \<le> 1024" "length b2 \<le> 1024"
    and d: "contents d = []" "set (wfaults d) \<subseteq> {None}"
    and k: "k < 10 + length b1"
    and f: "f = contents (snd (Append
            ((snd (Append d b1))\<lparr>contents := take k (contents (snd (Append d b1)))\<rparr>) b2))"
    and rej: "\<forall>p\<in>{0..<k}. cookie_at f p \<longrightarrow> rejected f p"
  let ?junk = "take k (wire_chunk b1)"
  have f': "f = ?junk @ wire_chunk b2 @ []"
    unfolding f using Append_truncated [OF len d] by simp
  have lj: "length ?junk = k"
    using k by simp
  have "\<forall>p. 0 \<le> p \<and> p < length ?junk \<longrightarrow> cookie_at f p \<longrightarrow> rejected f p"
    using rej lj by auto
  from Lookup_resync [OF len(2) this [unfolded f']] show
    "Lookup f 0 = Some (Inr (b2, int k + 10 + int (length b2)))"
    unfolding f' using lj by simp
qed

theorem torn_write_skipped_witness:
  "contents (snd (Append
       ((snd (Append empty_log [0x24, 0x71, 0x62, 0x69]))
          \<lparr>contents := take 7 (contents (snd (Append empty_log [0x24, 0x71, 0x62, 0x69])))\<rparr>)
       [0x24, 0x71, 0x62, 0x69])) =
     [0x24, 0x71, 0x62, 0x96, 0x00, 0x04, 0x24,
      0x24, 0x71, 0x62, 0x96, 0x00, 0x04, 0x24, 0x71, 0x62, 0x69, 0xB0, 0x74, 0xB4, 0x9D] \<and>
   ReadFull
     [0x24, 0x71, 0x62, 0x96, 0x00, 0x04, 0x24,
      0x24, 0x71, 0x62, 0x96, 0x00, 0x04, 0x24, 0x71, 0x62, 0x69, 0xB0, 0x74, 0xB4, 0x9D] (nat 1) 4 =
     (Inr [0x71, 0x62, 0x96, 0x00], 5) \<and>
   seekCookie
     [0x24, 0x71, 0x62, 0x96, 0x00, 0x04, 0x24,
      0x24, 0x71, 0x62, 0x96, 0x00, 0x04, 0x24, 0x71, 0x62, 0x69, 0xB0, 0x74, 0xB4, 0x9D]
     [0x71, 0x62, 0x96, 0x00] 0 1 5 = Inr (7, 11) \<and>
   Lookup
     [0x24, 0x71, 0x62, 0x96, 0x00, 0x04, 0x24,
      0x24, 0x71, 0x62, 0x96, 0x00, 0x04, 0x24, 0x71, 0x62, 0x69, 0xB0, 0x74, 0xB4, 0x9D] 0 =
     Some (Inr ([0x24, 0x71, 0x62, 0x69], 21))"
proof -
  let ?t = "[0x24, 0x71, 0x62, 0x69] :: byte list"
  let ?W = "[0x24, 0x71, 0x62, 0x96, 0x00, 0x04, 0x24,
      0x24, 0x71, 0x62, 0x96, 0x00, 0x04, 0x24, 0x71, 0x62, 0x69, 0xB0, 0x74, 0xB4, 0x9D] :: byte list"
  note T = torn_write_skipped [where offset = 1 and data = ?W and sync = "[0x71, 0x62, 0x96, 0x00]"
      and pos = 5 and q = 7 and ?b1.0 = ?t and ?b2.0 = ?t and d = empty_log and k = 7 and f = ?W]
  have e: "contents empty_log = []" "set (wfaults empty_log) \<subseteq> {None}"
    by (simp_all add: empty_log_def)
  have len: "length ?t \<le> 1024" "7 < 10 + length ?t"
    by simp_all
  have W: "?W = contents (snd (Append
       ((snd (Append empty_log ?t))\<lparr>contents := take 7 (contents (snd (Append empty_log ?t)))\<rparr>) ?t))"
    using Append_truncated [OF len(1) len(1) e, of 7] unfolding wire_chunk_near_cookie by simp
  have r0: "rejected ?W 0"
    by (simp add: rejected_def Lookup_eval)
  have h: "\<forall>p\<in>{0..<7}. cookie_at ?W p \<longrightarrow> rejected ?W p"
    using r0 by (simp add: atLeastLessThan_upt upt_rec cookie_at_def cookie_bytes)
  have A: "(0::int) \<le> 1" "ReadFull ?W (nat 1) 4 = (Inr [0x71, 0x62, 0x96, 0x00], 5)"
    "nat 1 \<le> (7::nat)" "cookie_at ?W 7" "\<forall>r\<in>{nat 1..<7}. \<not> cookie_at ?W r"
    by (simp_all add: ReadFull_def atLeastLessThan_upt upt_rec cookie_at_def cookie_bytes)
  from T A have s: "seekCookie ?W [0x71, 0x62, 0x96, 0x00] 0 1 5 = Inr (int 7, 7 + 4)"
    by blast
  from T e len W h have l: "Lookup ?W 0 = Some (Inr (?t, int 7 + 10 + int (length ?t)))"
    by blast
  from W A(2) s l show ?thesis
    by simp
qed

text \<open>
  Without the proviso the second half of claim C3 fails. The first payload is the ten bytes
  of a chunk with an empty payload and one byte more, and the file is cut to 16 bytes, just
  behind that inner chunk. The pass from 0 rejects the remnant, the next pass finds the
  cookie at offset 6 and its checksum matches: \<open>Lookup\<close> returns the empty payload and
  offset 16, not the second payload and offset 30.
\<close>

theorem torn_write_counterexample:
  "contents (snd (Append
       ((snd (Append empty_log [0x24, 0x71, 0x62, 0x96, 0x00, 0x00, 0x81, 0xFC, 0xD4, 0x36, 0x00]))
          \<lparr>contents := take 16 (contents (snd (Append empty_log
              [0x24, 0x71, 0x62, 0x96, 0x00, 0x00, 0x81, 0xFC, 0xD4, 0x36, 0x00])))\<rparr>)
       [0x65, 0x66, 0x67, 0x68])) =
     [0x24, 0x71, 0x62, 0x96, 0x00, 0x0B, 0x24, 0x71, 0x62, 0x96, 0x00, 0x00, 0x81, 0xFC, 0xD4, 0x36,
      0x24, 0x71, 0x62, 0x96, 0x00, 0x04, 0x65, 0x66, 0x67, 0x68, 0x80, 0xC5, 0xFA, 0xE3] \<and>
   Lookup
     [0x24, 0x71, 0x62, 0x96, 0x00, 0x0B, 0x24, 0x71, 0x62, 0x96, 0x00, 0x00, 0x81, 0xFC, 0xD4, 0x36,
      0x24, 0x71, 0x62, 0x96, 0x00, 0x04, 0x65, 0x66, 0x67, 0x68, 0x80, 0xC5, 0xFA, 0xE3] 0 =
     Some (Inr ([], 16)) \<and>
   Lookup
     [0x24, 0x71, 0x62, 0x96, 0x00, 0x0B, 0x24, 0x71, 0x62, 0x96, 0x00, 0x00, 0x81, 0xFC, 0xD4, 0x36,
      0x24, 0x71, 0x62, 0x96, 0x00, 0x04, 0x65, 0x66, 0x67, 0x68, 0x80, 0xC5, 0xFA, 0xE3] 0 \<noteq>
     Some (Inr ([0x65, 0x66, 0x67, 0x68], 30))"
proof -
  let ?b = "[0x24, 0x71, 0x62, 0x96, 0x00, 0x00, 0x81, 0xFC, 0xD4, 0x36, 0x00] :: byte list"
  let ?e = "[0x65, 0x66, 0x67, 0x68] :: byte list"
  let ?F = "[0x24, 0x71, 0x62, 0x96, 0x00, 0x0B, 0x24, 0x71, 0x62, 0x96, 0x00, 0x00, 0x81, 0xFC, 0xD4, 0x36,
      0x24, 0x71, 0x62, 0x96, 0x00, 0x04, 0x65, 0x66, 0x67, 0x68, 0x80, 0xC5, 0xFA, 0xE3] :: byte list"
  have e: "contents empty_log = []" "set (wfaults empty_log) \<subseteq> {None}"
    by (simp_all add: empty_log_def)
  have len: "length ?b \<le> 1024" "length ?e \<le> 1024"
    by simp_all
  have F: "contents (snd (Append
       ((snd (Append empty_log ?b))\<lparr>contents := take 16 (contents (snd (Append empty_log ?b)))\<rparr>) ?e)) = ?F"
    using Append_truncated [OF len e, of 16] unfolding wire_chunk_nested_more wire_chunk_efgh by simp
  have p0: "Lookup_pass ?F 0 = Continue 1"
    by (simp add: Lookup_eval)
  have p1: "Lookup_pass ?F 1 = Return (Inr ([], 16))"
    by (simp add: Lookup_eval)
  have l: "Lookup ?F 0 = Some (Inr ([], 16))"
    by (subst Lookup.simps, simp add: p0, subst Lookup.simps, simp add: p1)
  from F l show ?thesis
    by simp
qed


text \<open>
  The proviso also keeps out a remnant that the pass neither accepts nor rejects. When the
  length field of the remnant asks for more bytes than the file holds, reading the payload
  fails, and the source returns end of stream there instead of going round the loop again as
  it does for a length above 1024 and for a checksum that does not match. The chunk behind
  the remnant is then not found: here the first payload had 1000 bytes and the file was cut
  to 7.
\<close>

lemma torn_large_chunk_ends_stream:
  "Lookup (take 7 (wire_chunk (replicate 1000 0)) @ wire_chunk [0x65, 0x66, 0x67, 0x68]) 0 =
     Some (Inl EOF)"
proof -
  have t: "take 7 (wire_chunk (replicate 1000 0)) = [0x24, 0x71, 0x62, 0x96, 0x03, 0xE8, 0x00]"
    by (simp add: wire_chunk_def encodeU32_def encodeU16_def magicCookie_def)
  let ?f = "[0x24, 0x71, 0x62, 0x96, 0x03, 0xE8, 0x00] @ wire_chunk [0x65, 0x66, 0x67, 0x68]"
  have "cookie_at ?f 0"
    by (simp add: cookie_at_def cookie_bytes)
  then have nc: "next_cookie ?f 0 = Some 0"
    by (rule next_cookie_self)
  have "Lookup_chunk ?f 0 4 = Return (Inl EOF)"
    by (simp add: Lookup_chunk_unfold readU16_def ReadFull_def decodeU16_def)
  with nc have "Lookup_pass ?f 0 = Return (Inl EOF)"
    using Lookup_pass_scan [of 0 ?f] by simp
  then show ?thesis
    unfolding t by (subst Lookup.simps) simp
qed


section \<open>Closing the handles\<close>

text \<open>
  Claim C8. \<open>Close\<close> closes both handles whatever the first one answers: afterwards the read
  handle and the write handle are closed, and the error returned is the read handle's when
  closing it failed, and otherwise what closing the write handle answered.
\<close>

theorem Close_releases_both:
  "closed (rfile (snd (Close aof))) \<and> closed (wfile (snd (Close aof))) \<and>
   fst (Close aof) =
     (case close_result (rfile aof) of
        Some err \<Rightarrow> Some err
      | None \<Rightarrow> close_result (wfile aof))"
  by (simp add: Close_def handle_Close_def split: option.split)

section \<open>The size limit of Append\<close>

lemma Lookup_empty: "Lookup [] 0 = Some (Inl EOF)"
  by (subst Lookup.simps) (simp add: Lookup_pass_def Seek_def ReadFull_def)

text \<open>
  Claim C5. A payload of more than 1024 bytes makes \<open>Append\<close> fail with
  \<open>ErrChunkSizeLimitExceeded\<close> and leaves the file and the write handle as they were, so
  \<open>Lookup\<close> from offset 0 answers what it answered before the call; on a file that was empty
  that is end of stream.
\<close>

theorem Append_too_large:
  "length b > 1024 \<Longrightarrow>
     Append d b = (Some ErrChunkSizeLimitExceeded, d) \<and>
     Lookup (contents (snd (Append d b))) 0 = Lookup (contents d) 0 \<and>
     (contents d = [] \<longrightarrow> Lookup (contents (snd (Append d b))) 0 = Some (Inl EOF))"
  by (simp add: Append_def maxChunkSize_def Lookup_empty)

theorem Append_too_large_witness:
  "length (replicate 1025 (0::byte)) > 1024 \<and>
   Append empty_log (replicate 1025 0) = (Some ErrChunkSizeLimitExceeded, empty_log) \<and>
   Lookup (contents (snd (Append empty_log (replicate 1025 0)))) 0 = Some (Inl EOF)"
proof -
  have big: "length (replicate 1025 (0::byte)) > 1024"
    by simp
  have "contents empty_log = []"
    by (simp add: empty_log_def)
  with Append_too_large [OF big, of empty_log] big show ?thesis
    by blast
qed

end
